theory Spec2Isabelle
  imports Main "HOL-Library.Word"
begin

section \<open>The dynamic range-minimum tree of \<^verbatim>\<open>avl_rmq.hpp\<close>\<close>

text \<open>
  The class template \<^verbatim>\<open>avl_rmq<K, S>\<close> is embedded as follows.

  \<^item> The key type \<^verbatim>\<open>K\<close> is \<^typ>\<open>int\<close>, as in the driver's \<^verbatim>\<open>avl_rmq<int,int>\<close>.
    Subtraction is exact, so a rank that the unsigned reading would wrap shows up as a
    negative number (lemma \<open>rank_inv_nonneg\<close>: no stored rank of a reachable tree is).
    Overflow of \<^verbatim>\<open>K\<close> at the top is outside the specification.
  \<^item> The value type \<^verbatim>\<open>S\<close> is a type variable with a linear order (\<^verbatim>\<open>std::min\<close>), a greatest
    element \<^term>\<open>top\<close> (\<^verbatim>\<open>std::numeric_limits<S>::max()\<close>) and a \<^term>\<open>0\<close>
    (the literal returned by \<^verbatim>\<open>operator[]\<close>).
  \<^item> A \<^verbatim>\<open>node_t*\<close> is a value of the datatype \<open>node\<close>: \<open>Null\<close> is \<^verbatim>\<open>nullptr\<close>. Every
    node is owned by exactly one parent, so no two pointers alias and writing through a
    pointer is returning the rebuilt subtree. The fields \<^verbatim>\<open>value\<close> and \<^verbatim>\<open>min\<close> are the
    selectors \<open>value_n\<close> and \<open>min_n\<close>.
  \<^item> The height field \<^verbatim>\<open>depth\<close> is a \<^typ>\<open>nat\<close> and the balance an \<^typ>\<open>int\<close>:
    the widths of \<^verbatim>\<open>d_t\<close> and \<^verbatim>\<open>int8_t\<close> are not modelled. Lemma \<open>avl_depth_bound\<close>
    bounds the depth of the trees the claims are about.
  \<^item> Dereferencing \<^verbatim>\<open>nullptr\<close> is the result \<open>None\<close> of the functions that can do it.
\<close>

datatype 's node =
  Null
| Node (rank: int) (value_n: 's) (min_n: 's) (depth: nat) (left: "'s node") (right: "'s node")

record 's avl_rmq =
  root :: "'s node"
  n_nodes :: int

text \<open>
  The constructor sets \<^verbatim>\<open>root\<close> to \<^verbatim>\<open>nullptr\<close> and leaves \<^verbatim>\<open>n_nodes\<close> as it finds it; the
  value found is the parameter \<open>n0\<close>.
\<close>

definition avl_rmq_new :: "int \<Rightarrow> 's avl_rmq" where
  "avl_rmq_new n0 = \<lparr>root = Null, n_nodes = n0\<rparr>"

subsection \<open>Node helpers\<close>

text \<open>\<^verbatim>\<open>node_t::update_min\<close>, as the value it stores into \<^verbatim>\<open>min\<close> and returns.\<close>

definition update_min :: "'s::linorder \<Rightarrow> 's node \<Rightarrow> 's node \<Rightarrow> 's" where
  "update_min v l rt =
     (let m = v;
          m = (case l of Null \<Rightarrow> m | Node _ _ lm _ _ _ \<Rightarrow> min m lm);
          m = (case rt of Null \<Rightarrow> m | Node _ _ rm _ _ _ \<Rightarrow> min m rm)
      in m)"

fun get_depth :: "'s node \<Rightarrow> nat" where
  "get_depth Null = 0"
| "get_depth (Node r v m d l rt) = d"

fun get_min :: "'s::order_top node \<Rightarrow> 's" where
  "get_min Null = top"
| "get_min (Node r v m d l rt) = m"

fun get_balance :: "'s node \<Rightarrow> int" where
  "get_balance Null = 0"
| "get_balance (Node r v m d l rt) = int (get_depth l) - int (get_depth rt)"

subsection \<open>Rotations\<close>

fun right_rotate :: "'s::linorder node \<Rightarrow> 's node option" where
  "right_rotate (Node yr yv ym yd (Node xr xv xm xd xl tmp) yrt) =
     (let yr' = yr - xr;
          xm' = ym;
          ym' = update_min yv tmp yrt;
          yd' = max (get_depth tmp) (get_depth yrt) + 1;
          y' = Node yr' yv ym' yd' tmp yrt;
          xd' = max (get_depth xl) (get_depth y') + 1
      in Some (Node xr xv xm' xd' xl y'))"
| "right_rotate _ = None"

fun left_rotate :: "'s::linorder node \<Rightarrow> 's node option" where
  "left_rotate (Node xr xv xm xd xl (Node yr yv ym yd tmp yrt)) =
     (let yr' = yr + xr;
          ym' = xm;
          xm' = update_min xv xl tmp;
          xd' = max (get_depth xl) (get_depth tmp) + 1;
          x' = Node xr xv xm' xd' xl tmp;
          yd' = max (get_depth x') (get_depth yrt) + 1
      in Some (Node yr' yv ym' yd' x' yrt))"
| "left_rotate _ = None"

subsection \<open>Search, update, insert\<close>

fun search :: "'s node \<Rightarrow> int \<Rightarrow> 's node" where
  "search Null rnk = Null"
| "search (Node r v m d l rt) rnk =
     (if rnk < r then search l rnk
      else if rnk > r then search rt (rnk - r)
      else Node r v m d l rt)"

fun update :: "'s::linorder node \<Rightarrow> int \<Rightarrow> 's \<Rightarrow> 's node" where
  "update Null rnk x = Null"
| "update (Node r v m d l rt) rnk x =
     (if rnk < r then
        (let l' = update l rnk x in Node r v (update_min v l' rt) d l' rt)
      else if rnk > r then
        (let rt' = update rt (rnk - r) x in Node r v (update_min v l rt') d l rt')
      else Node r x (update_min x l rt) d l rt)"

text \<open>
  The protected \<^verbatim>\<open>insert\<close>. \<open>rebalance\<close> is its part after the recursive call
  (lines 380 to 411), on the fields of the node as that call and \<^verbatim>\<open>node->rank++\<close>
  left them; \<open>rnk\<close> is the rank the enclosing call received. The stale \<^verbatim>\<open>depth\<close> is not
  passed: line 384 overwrites it before anything reads it.
\<close>

definition rebalance ::
  "int \<Rightarrow> 's::linorder \<Rightarrow> 's \<Rightarrow> 's node \<Rightarrow> 's node \<Rightarrow> int \<Rightarrow> 's \<Rightarrow> 's node option" where
  "rebalance r v m l rt rnk x =
     (let m' = min m x;
          d' = max (get_depth l) (get_depth rt) + 1;
          node = Node r v m' d' l rt;
          balance = get_balance node
      in if balance > 1 then
           (case l of
              Null \<Rightarrow> None
            | Node lr _ _ _ _ _ \<Rightarrow>
                if rnk > lr then
                  (case left_rotate l of
                     None \<Rightarrow> None
                   | Some l' \<Rightarrow> right_rotate (Node r v m' d' l' rt))
                else right_rotate node)
         else if balance < - 1 then
           (let rnk' = rnk - r in
            case rt of
              Null \<Rightarrow> None
            | Node rr _ _ _ _ _ \<Rightarrow>
                if rnk' < rr then
                  (case right_rotate rt of
                     None \<Rightarrow> None
                   | Some rt' \<Rightarrow> left_rotate (Node r v m' d' l rt'))
                else left_rotate node)
         else Some node)"

fun insert_node :: "'s::linorder node \<Rightarrow> int \<Rightarrow> 's \<Rightarrow> 's node option" where
  "insert_node Null rnk x = Some (Node rnk x x 1 Null Null)"
| "insert_node (Node r v m d l rt) rnk x =
     (if rnk \<le> r then
        (case insert_node l rnk x of
           None \<Rightarrow> None
         | Some l' \<Rightarrow> rebalance (r + 1) v m l' rt rnk x)
      else
        (case insert_node rt (rnk - r) x of
           None \<Rightarrow> None
         | Some rt' \<Rightarrow> rebalance r v m l rt' rnk x))"

subsection \<open>Range minimum and traversal\<close>

fun min_range :: "'s::{linorder,order_top} node \<Rightarrow> int \<Rightarrow> int \<Rightarrow> bool \<Rightarrow> 's" where
  "min_range Null lft rgt include_right = top"
| "min_range (Node r v m d l rt) lft rgt include_right =
     (if lft = rgt then top
      else if r \<ge> rgt then min_range l lft rgt False
      else if r < lft then min_range rt (lft - r) (rgt - r) False
      else
        (let mn = v;
             mn = (if include_right then min mn (get_min rt) else mn);
             mn = (if lft = 0 then min mn (get_min l)
                   else min mn (min_range l lft r True));
             mn = min mn (min_range rt 0 (rgt - r) False)
         in mn))"

text \<open>The protected \<^verbatim>\<open>to_vector\<close> appends to the vector it is given.\<close>

fun to_vector_node :: "'s node \<Rightarrow> 's list \<Rightarrow> 's list" where
  "to_vector_node Null vec = vec"
| "to_vector_node (Node r v m d l rt) vec = to_vector_node rt (to_vector_node l vec @ [v])"

subsection \<open>The public operations\<close>

text \<open>
  \<^verbatim>\<open>operator[]\<close> is \<open>access\<close>, \<^verbatim>\<open>operator()\<close> is \<open>range_min\<close> (the names of the
  specification). Both only read the tree, as does \<^verbatim>\<open>to_vector\<close>: they are functions of
  the state with no successor state.
\<close>

definition access :: "'s::zero avl_rmq \<Rightarrow> int \<Rightarrow> 's option" where
  "access t rnk =
     (if root t = Null \<or> rnk \<ge> n_nodes t then Some 0
      else case search (root t) rnk of
             Null \<Rightarrow> None
           | Node _ v _ _ _ _ \<Rightarrow> Some v)"

definition insert_rmq :: "'s::linorder avl_rmq \<Rightarrow> int \<Rightarrow> 's \<Rightarrow> 's avl_rmq option" where
  "insert_rmq t rnk x =
     (case insert_node (root t) rnk x of
        None \<Rightarrow> None
      | Some rt' \<Rightarrow> Some (t\<lparr>root := rt', n_nodes := n_nodes t + 1\<rparr>))"

definition update_rmq :: "'s::linorder avl_rmq \<Rightarrow> int \<Rightarrow> 's \<Rightarrow> 's avl_rmq" where
  "update_rmq t rnk x = t\<lparr>root := update (root t) rnk x\<rparr>"

definition range_min :: "'s::{linorder,order_top} avl_rmq \<Rightarrow> int \<Rightarrow> int \<Rightarrow> 's" where
  "range_min t lft rgt =
     (if lft = 0 \<and> rgt > n_nodes t then get_min (root t)
      else min_range (root t) lft rgt (rgt > n_nodes t))"

definition to_vector :: "'s avl_rmq \<Rightarrow> 's list" where
  "to_vector t = to_vector_node (root t) []"

subsection \<open>Sequences of operations\<close>

text \<open>
  A caller's sequence of mutating operations. \<open>run\<close> executes it and stops with
  \<open>None\<close> at the first call whose position is outside the contract
  (\<open>0 \<le> p \<le> n_nodes\<close> for insert, \<open>0 \<le> p < n_nodes\<close> for update) or that
  dereferences \<^verbatim>\<open>nullptr\<close>. The trees reached from the empty tree are the results of
  \<open>run (avl_rmq_new 0) ops\<close>: the counter starts at 0, as the specification requires
  of the constructor.
\<close>

datatype 's op = Insert int 's | Update int 's

fun run :: "'s::linorder avl_rmq \<Rightarrow> 's op list \<Rightarrow> 's avl_rmq option" where
  "run t [] = Some t"
| "run t (Insert p x # ops) =
     (if 0 \<le> p \<and> p \<le> n_nodes t then
        (case insert_rmq t p x of None \<Rightarrow> None | Some t' \<Rightarrow> run t' ops)
      else None)"
| "run t (Update p x # ops) =
     (if 0 \<le> p \<and> p < n_nodes t then run (update_rmq t p x) ops else None)"

text \<open>
  The same calls as the code executes them, with no check of the contract: the counter
  that the contract of \<open>run\<close> reads is whatever the constructor found.
\<close>

fun calls :: "'s::linorder avl_rmq \<Rightarrow> 's op list \<Rightarrow> 's avl_rmq option" where
  "calls t [] = Some t"
| "calls t (Insert p x # ops) =
     (case insert_rmq t p x of None \<Rightarrow> None | Some t' \<Rightarrow> calls t' ops)"
| "calls t (Update p x # ops) = calls (update_rmq t p x) ops"

subsection \<open>The represented sequence and the invariants\<close>

text \<open>\<open>num_nodes\<close> is the \<open>size\<close> of the specification: the number of nodes of a subtree.\<close>

fun num_nodes :: "'s node \<Rightarrow> nat" where
  "num_nodes Null = 0"
| "num_nodes (Node r v m d l rt) = num_nodes l + 1 + num_nodes rt"

fun inorder :: "'s node \<Rightarrow> 's list" where
  "inorder Null = []"
| "inorder (Node r v m d l rt) = inorder l @ v # inorder rt"

fun height :: "'s node \<Rightarrow> nat" where
  "height Null = 0"
| "height (Node r v m d l rt) = max (height l) (height rt) + 1"

text \<open>
  The rank invariant as the specification words it (I1): every node has
  \<open>rank = 1 + size left\<close>.
\<close>

fun rank_one_based :: "'s node \<Rightarrow> bool" where
  "rank_one_based Null = True"
| "rank_one_based (Node r v m d l rt) =
     (r = 1 + int (num_nodes l) \<and> rank_one_based l \<and> rank_one_based rt)"

text \<open>
  The rank invariant with an offset. \<open>b\<close> is the offset of the subtree's root: a left
  child inherits it, a right child has offset 1. Started with \<open>b = 0\<close> at the root, the
  nodes with offset 0 are the root and the nodes reached from it by left edges only.
\<close>

fun rank_inv :: "int \<Rightarrow> 's node \<Rightarrow> bool" where
  "rank_inv b Null = True"
| "rank_inv b (Node r v m d l rt) =
     (r = int (num_nodes l) + b \<and> rank_inv b l \<and> rank_inv 1 rt)"

text \<open>
  The rank invariant in the specification's terms, with the left spine set apart: a node
  on the left spine (the root and the nodes reached from it by left edges only) has
  \<open>rank = size left\<close>, and every subtree hanging off the spine to the right satisfies
  I1 as worded.
\<close>

fun spine_ranks :: "'s node \<Rightarrow> bool" where
  "spine_ranks Null = True"
| "spine_ranks (Node r v m d l rt) =
     (r = int (num_nodes l) \<and> spine_ranks l \<and> rank_one_based rt)"

text \<open>
  The leaf that the protected \<^verbatim>\<open>insert\<close> constructs at line 370: the descent of lines 369
  to 378 alone, without the steps after the recursive call. \<open>left_only\<close> tells whether
  that descent took left edges only, that is, whether the leaf is created on the left
  spine.
\<close>

fun new_leaf :: "'s node \<Rightarrow> int \<Rightarrow> 's \<Rightarrow> 's node" where
  "new_leaf Null rnk x = Node rnk x x 1 Null Null"
| "new_leaf (Node r v m d l rt) rnk x =
     (if rnk \<le> r then new_leaf l rnk x else new_leaf rt (rnk - r) x)"

fun left_only :: "'s node \<Rightarrow> int \<Rightarrow> bool" where
  "left_only Null rnk = True"
| "left_only (Node r v m d l rt) rnk = (rnk \<le> r \<and> left_only l rnk)"

text \<open>I2: the cached minimum of every node.\<close>

fun min_inv :: "'s::{linorder,order_top} node \<Rightarrow> bool" where
  "min_inv Null = True"
| "min_inv (Node r v m d l rt) =
     (m = min v (min (get_min l) (get_min rt)) \<and> min_inv l \<and> min_inv rt)"

text \<open>I3 on the stored \<^verbatim>\<open>depth\<close> fields, and I4 on the true heights.\<close>

fun depth_inv :: "'s node \<Rightarrow> bool" where
  "depth_inv Null = True"
| "depth_inv (Node r v m d l rt) =
     (d = 1 + max (get_depth l) (get_depth rt) \<and> depth_inv l \<and> depth_inv rt)"

fun balanced :: "'s node \<Rightarrow> bool" where
  "balanced Null = True"
| "balanced (Node r v m d l rt) =
     (\<bar>int (height l) - int (height rt)\<bar> \<le> 1 \<and> balanced l \<and> balanced rt)"

text \<open>I3 and I4 together, both read off the stored fields, as \<^verbatim>\<open>get_balance\<close> does.\<close>

fun avl :: "'s node \<Rightarrow> bool" where
  "avl Null = True"
| "avl (Node r v m d l rt) =
     (d = max (get_depth l) (get_depth rt) + 1 \<and>
      \<bar>int (get_depth l) - int (get_depth rt)\<bar> \<le> 1 \<and> avl l \<and> avl rt)"

text \<open>
  What is known of a subtree that an insertion at \<open>p\<close> has made one higher: the side
  the insertion went to is the higher one, and the comparison of \<open>p\<close> with the root's
  rank that the parent makes tells which side that was.
\<close>

fun heavy :: "int \<Rightarrow> 's node \<Rightarrow> bool" where
  "heavy p Null = False"
| "heavy p (Node r v m d l rt) =
     (p \<noteq> r \<and> (p < r \<longrightarrow> get_depth l = get_depth rt + 1)
            \<and> (p > r \<longrightarrow> get_depth rt = get_depth l + 1))"

text \<open>The minimum of a list, with the sentinel for the empty list.\<close>

fun min_list_top :: "'s::{linorder,order_top} list \<Rightarrow> 's" where
  "min_list_top [] = top"
| "min_list_top (y # ys) = min y (min_list_top ys)"

definition slice :: "'a list \<Rightarrow> nat \<Rightarrow> nat \<Rightarrow> 'a list" where
  "slice xs i j = take (j - i) (drop i xs)"

text \<open>The invariant of the whole structure, I6 included.\<close>

definition rmq_inv :: "'s::{linorder,order_top} avl_rmq \<Rightarrow> bool" where
  "rmq_inv t = (rank_inv 0 (root t) \<and> min_inv (root t) \<and> avl (root t) \<and>
                n_nodes t = int (num_nodes (root t)))"

text \<open>
  A run with a rotation, an insertion at an occupied rank and an update, on 32-bit
  unsigned values, and the tree it ends in: the sequence \<open>[12, 2, 12, 1]\<close>.
\<close>

definition example_ops :: "32 word op list" where
  "example_ops = [Insert 0 2, Insert 1 1, Insert 2 1, Insert 0 12, Update 2 12]"

definition example_tree :: "32 word avl_rmq" where
  "example_tree =
     \<lparr>root = Node 2 12 1 3 (Node 1 2 2 2 (Node 0 12 12 1 Null Null) Null)
               (Node 1 1 1 1 Null Null),
      n_nodes = 4\<rparr>"

text \<open>
  The run of the driver \<^verbatim>\<open>avl_rmq_test.cpp\<close> up to its first queries, and the tree it
  builds.
\<close>

definition driver_ops :: "32 word op list" where
  "driver_ops = [Insert 0 2, Insert 1 1, Insert 2 1, Insert 3 3, Insert 4 2, Insert 5 3,
     Insert 6 4, Insert 7 5, Insert 8 6, Insert 9 7, Insert 10 8, Insert 11 9]"

definition driver_tree :: "32 word avl_rmq" where
  "driver_tree =
     \<lparr>root =
        Node 7 5 1 4
          (Node 3 3 1 3
            (Node 1 1 1 2 (Node 0 2 2 1 Null Null) (Node 1 1 1 1 Null Null))
            (Node 2 3 2 2 (Node 1 2 2 1 Null Null) (Node 1 4 4 1 Null Null)))
          (Node 2 7 6 3 (Node 1 6 6 1 Null Null)
            (Node 1 8 8 2 Null (Node 1 9 9 1 Null Null))),
      n_nodes = 12\<rparr>"

text \<open>
  The tree of the sequence \<open>[5, 9, 1]\<close>, built by three inserts on an object whose
  constructor found \<open>- 2\<close> in \<^verbatim>\<open>n_nodes\<close>: the counter ends at 1, not at 3.
\<close>

definition unset_tree :: "32 word avl_rmq" where
  "unset_tree =
     \<lparr>root = Node 1 9 1 2 (Node 0 5 5 1 Null Null) (Node 1 1 1 1 Null Null), n_nodes = 1\<rparr>"

section \<open>Proofs\<close>

subsection \<open>Traversal and cached minimum\<close>

lemma to_vector_node_inorder: "to_vector_node t vec = vec @ inorder t"
  by (induction t arbitrary: vec) auto

lemma length_inorder: "length (inorder t) = num_nodes t"
  by (induction t) auto

lemma update_min_get_min: "update_min v l rt = min v (min (get_min l) (get_min rt))"
  by (cases l; cases rt) (simp_all add: update_min_def min.assoc)

subsection \<open>Rotations keep the sequence, the ranks and the minima\<close>

lemma right_rotate_inorder: "right_rotate t = Some t' \<Longrightarrow> inorder t' = inorder t"
  by (induction t rule: right_rotate.induct) (auto simp: Let_def)

lemma left_rotate_inorder: "left_rotate t = Some t' \<Longrightarrow> inorder t' = inorder t"
  by (induction t rule: left_rotate.induct) (auto simp: Let_def)

lemma right_rotate_num: "right_rotate t = Some t' \<Longrightarrow> num_nodes t' = num_nodes t"
  by (induction t rule: right_rotate.induct) (auto simp: Let_def)

lemma left_rotate_num: "left_rotate t = Some t' \<Longrightarrow> num_nodes t' = num_nodes t"
  by (induction t rule: left_rotate.induct) (auto simp: Let_def)

lemma right_rotate_rank: "right_rotate t = Some t' \<Longrightarrow> rank_inv b t \<Longrightarrow> rank_inv b t'"
  by (induction t rule: right_rotate.induct) (auto simp: Let_def)

lemma left_rotate_rank: "left_rotate t = Some t' \<Longrightarrow> rank_inv b t \<Longrightarrow> rank_inv b t'"
  by (induction t rule: left_rotate.induct) (auto simp: Let_def)

subsection \<open>The five outcomes of rebalancing\<close>

lemma rebalance_eq:
  "rebalance r v m l rt rnk x =
    (if int (get_depth l) - int (get_depth rt) > 1 then
       (if rnk > rank l then
          (case left_rotate l of None \<Rightarrow> None
           | Some l' \<Rightarrow> right_rotate (Node r v (min m x) (max (get_depth l) (get_depth rt) + 1) l' rt))
        else right_rotate (Node r v (min m x) (max (get_depth l) (get_depth rt) + 1) l rt))
     else if int (get_depth l) - int (get_depth rt) < - 1 then
       (if rnk - r < rank rt then
          (case right_rotate rt of None \<Rightarrow> None
           | Some rt' \<Rightarrow> left_rotate (Node r v (min m x) (max (get_depth l) (get_depth rt) + 1) l rt'))
        else left_rotate (Node r v (min m x) (max (get_depth l) (get_depth rt) + 1) l rt))
     else Some (Node r v (min m x) (max (get_depth l) (get_depth rt) + 1) l rt))"
proof (cases l)
  case Null
  then show ?thesis by (cases rt) (simp_all add: rebalance_def Let_def cong: option.case_cong)
next
  case (Node lr lv lm ld ll lrt)
  then show ?thesis by (cases rt) (simp_all add: rebalance_def Let_def cong: option.case_cong)
qed

lemma rebalance_cases:
  assumes "rebalance r v m l rt rnk x = Some t'"
  obtains
    (Keep) "t' = Node r v (min m x) (max (get_depth l) (get_depth rt) + 1) l rt"
  | (LL) "right_rotate (Node r v (min m x) (max (get_depth l) (get_depth rt) + 1) l rt) = Some t'"
  | (LR) l' where "left_rotate l = Some l'"
      "right_rotate (Node r v (min m x) (max (get_depth l) (get_depth rt) + 1) l' rt) = Some t'"
  | (RR) "left_rotate (Node r v (min m x) (max (get_depth l) (get_depth rt) + 1) l rt) = Some t'"
  | (RL) rt' where "right_rotate rt = Some rt'"
      "left_rotate (Node r v (min m x) (max (get_depth l) (get_depth rt) + 1) l rt') = Some t'"
proof -
  let ?bal = "int (get_depth l) - int (get_depth rt)"
  consider (a) "?bal > 1" "rnk > rank l" | (b) "?bal > 1" "\<not> rnk > rank l"
    | (c) "\<not> ?bal > 1" "?bal < - 1" "rnk - r < rank rt"
    | (d) "\<not> ?bal > 1" "?bal < - 1" "\<not> rnk - r < rank rt"
    | (e) "\<not> ?bal > 1" "\<not> ?bal < - 1"
    by blast
  then show thesis
  proof cases
    case a
    with assms obtain l' where "left_rotate l = Some l'"
      "right_rotate (Node r v (min m x) (max (get_depth l) (get_depth rt) + 1) l' rt) = Some t'"
      by (simp only: rebalance_eq if_True split: option.splits) simp
    then show thesis by (rule LR)
  next
    case b
    with assms show thesis by (intro LL) (simp only: rebalance_eq if_True if_False)
  next
    case c
    with assms obtain rt' where "right_rotate rt = Some rt'"
      "left_rotate (Node r v (min m x) (max (get_depth l) (get_depth rt) + 1) l rt') = Some t'"
      by (simp only: rebalance_eq if_True if_False split: option.splits) simp
    then show thesis by (rule RL)
  next
    case d
    with assms show thesis by (intro RR) (simp only: rebalance_eq if_True if_False)
  next
    case e
    with assms show thesis by (intro Keep) (simp only: rebalance_eq if_True if_False option.inject)
  qed
qed

lemma rebalance_inorder:
  "rebalance r v m l rt rnk x = Some t' \<Longrightarrow> inorder t' = inorder l @ v # inorder rt"
  by (erule rebalance_cases)
     (auto dest!: right_rotate_inorder left_rotate_inorder)

lemma rebalance_num:
  "rebalance r v m l rt rnk x = Some t' \<Longrightarrow> num_nodes t' = num_nodes l + 1 + num_nodes rt"
  by (erule rebalance_cases)
     (auto dest!: right_rotate_num left_rotate_num)

lemma rebalance_rank:
  assumes rb: "rebalance r v m l rt rnk x = Some t'"
    and r: "r = int (num_nodes l) + b" and l: "rank_inv b l" and rt: "rank_inv 1 rt"
  shows "rank_inv b t'"
  using rb
proof (cases rule: rebalance_cases)
  case Keep
  then show ?thesis using r l rt by simp
next
  case LL
  from right_rotate_rank[OF this, of b] show ?thesis using r l rt by simp
next
  case (LR l')
  from left_rotate_rank[OF LR(1) l] left_rotate_num[OF LR(1)] right_rotate_rank[OF LR(2), of b]
  show ?thesis using r l rt by simp
next
  case RR
  from left_rotate_rank[OF this, of b] show ?thesis using r l rt by simp
next
  case (RL rt')
  from right_rotate_rank[OF RL(1) rt] left_rotate_rank[OF RL(2), of b]
  show ?thesis using r l rt by simp
qed

lemma right_rotate_min:
  "right_rotate t = Some t' \<Longrightarrow> min_inv t \<Longrightarrow> min_inv t' \<and> get_min t' = get_min t"
  by (induction t rule: right_rotate.induct)
     (auto simp: Let_def update_min_get_min min.assoc min.left_commute)

lemma left_rotate_min:
  "left_rotate t = Some t' \<Longrightarrow> min_inv t \<Longrightarrow> min_inv t' \<and> get_min t' = get_min t"
  by (induction t rule: left_rotate.induct)
     (auto simp: Let_def update_min_get_min min.assoc min.left_commute)

lemma rebalance_min:
  assumes rb: "rebalance r v m l rt rnk x = Some t'"
    and m: "min m x = min v (min (get_min l) (get_min rt))"
    and l: "min_inv l" and rt: "min_inv rt"
  shows "min_inv t' \<and> get_min t' = min m x"
  using rb
proof (cases rule: rebalance_cases)
  case Keep
  then show ?thesis using m l rt by simp
next
  case LL
  from right_rotate_min[OF this] show ?thesis using m l rt by simp
next
  case (LR l')
  from left_rotate_min[OF LR(1) l] right_rotate_min[OF LR(2)]
  show ?thesis using m l rt by simp
next
  case RR
  from left_rotate_min[OF this] show ?thesis using m l rt by simp
next
  case (RL rt')
  from right_rotate_min[OF RL(1) rt] left_rotate_min[OF RL(2)]
  show ?thesis using m l rt by simp
qed

subsection \<open>Rotations restore the balance\<close>

lemma avl_depth_0: "avl t \<Longrightarrow> get_depth t = 0 \<Longrightarrow> t = Null"
  by (cases t) auto

lemma rotate_LL:
  assumes "avl l" "avl rt" "get_depth l = get_depth rt + 2"
    "get_depth (left l) = get_depth (right l) + 1"
  shows "\<exists>t'. right_rotate (Node r v m d l rt) = Some t' \<and> avl t' \<and> get_depth t' = get_depth rt + 2"
  using assms by (cases l) (auto simp: Let_def)

lemma rotate_RR:
  assumes "avl l" "avl rt" "get_depth rt = get_depth l + 2"
    "get_depth (right rt) = get_depth (left rt) + 1"
  shows "\<exists>t'. left_rotate (Node r v m d l rt) = Some t' \<and> avl t' \<and> get_depth t' = get_depth l + 2"
  using assms by (cases rt) (auto simp: Let_def)

lemma rotate_LR:
  assumes "avl l" "avl rt" "get_depth l = get_depth rt + 2"
    "get_depth (right l) = get_depth (left l) + 1"
  shows "\<exists>l' t'. left_rotate l = Some l' \<and> right_rotate (Node r v m d l' rt) = Some t'
            \<and> avl t' \<and> get_depth t' = get_depth rt + 2"
proof (cases l)
  case Null
  with assms show ?thesis by simp
next
  case l: (Node lr lv lm ld ll lrt)
  show ?thesis
  proof (cases lrt)
    case Null
    with assms l show ?thesis by simp
  next
    case (Node a1 a2 a3 a4 a5 a6)
    with assms l show ?thesis by (auto simp: Let_def)
  qed
qed

lemma rotate_RL:
  assumes "avl l" "avl rt" "get_depth rt = get_depth l + 2"
    "get_depth (left rt) = get_depth (right rt) + 1"
  shows "\<exists>rt' t'. right_rotate rt = Some rt' \<and> left_rotate (Node r v m d l rt') = Some t'
            \<and> avl t' \<and> get_depth t' = get_depth l + 2"
proof (cases rt)
  case Null
  with assms show ?thesis by simp
next
  case rt: (Node rr rv rm rd rl rrt)
  show ?thesis
  proof (cases rl)
    case Null
    with assms rt show ?thesis by simp
  next
    case (Node a1 a2 a3 a4 a5 a6)
    with assms rt show ?thesis by (auto simp: Let_def)
  qed
qed

lemma heavy_left: "heavy p t \<Longrightarrow> \<not> p > rank t \<Longrightarrow> get_depth (left t) = get_depth (right t) + 1"
  by (cases t) auto

lemma heavy_right: "heavy p t \<Longrightarrow> \<not> p < rank t \<Longrightarrow> get_depth (right t) = get_depth (left t) + 1"
  by (cases t) auto

lemma heavy_left': "heavy p t \<Longrightarrow> p < rank t \<Longrightarrow> get_depth (left t) = get_depth (right t) + 1"
  by (cases t) auto

lemma heavy_right': "heavy p t \<Longrightarrow> p > rank t \<Longrightarrow> get_depth (right t) = get_depth (left t) + 1"
  by (cases t) auto

lemma rebalance_avl_left:
  assumes l: "avl l" and rt: "avl rt"
    and up: "get_depth l \<le> get_depth rt + 2" and lo: "get_depth rt \<le> get_depth l + 1"
    and hv: "get_depth l = get_depth rt + 2 \<Longrightarrow> heavy rnk l"
  shows "\<exists>t'. rebalance r v m l rt rnk x = Some t' \<and> avl t' \<and>
           (if get_depth l = get_depth rt + 2 then get_depth t' = get_depth l
            else t' = Node r v (min m x) (max (get_depth l) (get_depth rt) + 1) l rt)"
proof (cases "get_depth l = get_depth rt + 2")
  case False
  with up lo have "\<not> int (get_depth l) - int (get_depth rt) > 1"
    "\<not> int (get_depth l) - int (get_depth rt) < - 1" by auto
  then have "rebalance r v m l rt rnk x
        = Some (Node r v (min m x) (max (get_depth l) (get_depth rt) + 1) l rt)"
    by (simp only: rebalance_eq if_False)
  moreover have "avl (Node r v (min m x) (max (get_depth l) (get_depth rt) + 1) l rt)"
    using l rt up lo False by auto
  ultimately show ?thesis using False by simp
next
  case True
  then have bal: "int (get_depth l) - int (get_depth rt) > 1" by simp
  note h = hv[OF True]
  show ?thesis
  proof (cases "rnk > rank l")
    case gt: True
    from rotate_LR[OF l rt True heavy_right'[OF h gt], of r v "min m x" "max (get_depth l) (get_depth rt) + 1"]
    obtain l' t' where "left_rotate l = Some l'"
      "right_rotate (Node r v (min m x) (max (get_depth l) (get_depth rt) + 1) l' rt) = Some t'"
      "avl t'" "get_depth t' = get_depth rt + 2" by blast
    then show ?thesis using True bal gt by (simp add: rebalance_eq)
  next
    case ngt: False
    from rotate_LL[OF l rt True heavy_left[OF h ngt], of r v "min m x" "max (get_depth l) (get_depth rt) + 1"]
    obtain t' where
      "right_rotate (Node r v (min m x) (max (get_depth l) (get_depth rt) + 1) l rt) = Some t'"
      "avl t'" "get_depth t' = get_depth rt + 2" by blast
    then show ?thesis using True bal ngt by (simp add: rebalance_eq)
  qed
qed

lemma rebalance_avl_right:
  assumes l: "avl l" and rt: "avl rt"
    and up: "get_depth rt \<le> get_depth l + 2" and lo: "get_depth l \<le> get_depth rt + 1"
    and hv: "get_depth rt = get_depth l + 2 \<Longrightarrow> heavy (rnk - r) rt"
  shows "\<exists>t'. rebalance r v m l rt rnk x = Some t' \<and> avl t' \<and>
           (if get_depth rt = get_depth l + 2 then get_depth t' = get_depth rt
            else t' = Node r v (min m x) (max (get_depth l) (get_depth rt) + 1) l rt)"
proof (cases "get_depth rt = get_depth l + 2")
  case False
  with up lo have "\<not> int (get_depth l) - int (get_depth rt) > 1"
    "\<not> int (get_depth l) - int (get_depth rt) < - 1" by auto
  then have "rebalance r v m l rt rnk x
        = Some (Node r v (min m x) (max (get_depth l) (get_depth rt) + 1) l rt)"
    by (simp only: rebalance_eq if_False)
  moreover have "avl (Node r v (min m x) (max (get_depth l) (get_depth rt) + 1) l rt)"
    using l rt up lo False by auto
  ultimately show ?thesis using False by simp
next
  case True
  then have bal: "\<not> int (get_depth l) - int (get_depth rt) > 1"
    "int (get_depth l) - int (get_depth rt) < - 1" by simp_all
  note h = hv[OF True]
  show ?thesis
  proof (cases "rnk - r < rank rt")
    case lt: True
    from rotate_RL[OF l rt True heavy_left'[OF h lt], of r v "min m x" "max (get_depth l) (get_depth rt) + 1"]
    obtain rt' t' where "right_rotate rt = Some rt'"
      "left_rotate (Node r v (min m x) (max (get_depth l) (get_depth rt) + 1) l rt') = Some t'"
      "avl t'" "get_depth t' = get_depth l + 2" by blast
    then show ?thesis using True bal lt by (simp add: rebalance_eq)
  next
    case nlt: False
    from rotate_RR[OF l rt True heavy_right[OF h nlt], of r v "min m x" "max (get_depth l) (get_depth rt) + 1"]
    obtain t' where
      "left_rotate (Node r v (min m x) (max (get_depth l) (get_depth rt) + 1) l rt) = Some t'"
      "avl t'" "get_depth t' = get_depth l + 2" by blast
    then show ?thesis using True bal nlt by (simp add: rebalance_eq)
  qed
qed

subsection \<open>Insertion\<close>

lemma insert_node_avl:
  "avl t \<Longrightarrow> \<exists>t'. insert_node t p x = Some t' \<and> avl t' \<and>
      (get_depth t' = get_depth t \<or>
       get_depth t' = get_depth t + 1 \<and> (t \<noteq> Null \<longrightarrow> heavy p t'))"
proof (induction t arbitrary: p)
  case Null
  then show ?case by simp
next
  case (Node r v m d l rt)
  from Node.prems have al: "avl l" and art: "avl rt"
    and d: "d = max (get_depth l) (get_depth rt) + 1"
    and bal: "get_depth l \<le> get_depth rt + 1" "get_depth rt \<le> get_depth l + 1"
    by auto
  show ?case
  proof (cases "p \<le> r")
    case True
    from Node.IH(1)[OF al, of p] obtain l1 where
      ins: "insert_node l p x = Some l1" and al1: "avl l1"
      and dl1: "get_depth l1 = get_depth l \<or>
                get_depth l1 = get_depth l + 1 \<and> (l \<noteq> Null \<longrightarrow> heavy p l1)" by blast
    have hv: "get_depth l1 = get_depth rt + 2 \<Longrightarrow> heavy p l1"
      using dl1 bal by (cases l) auto
    from rebalance_avl_left[OF al1 art _ _ hv, of "r + 1" v m x] dl1 bal
    obtain t' where rb: "rebalance (r + 1) v m l1 rt p x = Some t'" and at': "avl t'"
      and sh: "if get_depth l1 = get_depth rt + 2 then get_depth t' = get_depth l1
            else t' = Node (r + 1) v (min m x) (max (get_depth l1) (get_depth rt) + 1) l1 rt"
      by auto
    have "get_depth t' = d \<or> get_depth t' = d + 1 \<and> heavy p t'"
      using sh dl1 bal d True by (auto split: if_splits)
    then show ?thesis using True ins rb at' by simp
  next
    case False
    from Node.IH(2)[OF art, of "p - r"] obtain rt1 where
      ins: "insert_node rt (p - r) x = Some rt1" and art1: "avl rt1"
      and drt1: "get_depth rt1 = get_depth rt \<or>
                get_depth rt1 = get_depth rt + 1 \<and> (rt \<noteq> Null \<longrightarrow> heavy (p - r) rt1)" by blast
    have hv: "get_depth rt1 = get_depth l + 2 \<Longrightarrow> heavy (p - r) rt1"
      using drt1 bal by (cases rt) auto
    from rebalance_avl_right[OF al art1 _ _ hv, of v m x] drt1 bal
    obtain t' where rb: "rebalance r v m l rt1 p x = Some t'" and at': "avl t'"
      and sh: "if get_depth rt1 = get_depth l + 2 then get_depth t' = get_depth rt1
            else t' = Node r v (min m x) (max (get_depth l) (get_depth rt1) + 1) l rt1"
      by auto
    have "get_depth t' = d \<or> get_depth t' = d + 1 \<and> heavy p t'"
      using sh drt1 bal d False by (auto split: if_splits)
    then show ?thesis using False ins rb at' by simp
  qed
qed

lemma insert_node_rank:
  "insert_node t p x = Some t' \<Longrightarrow> rank_inv b t \<Longrightarrow> b \<le> p \<Longrightarrow> p \<le> int (num_nodes t) + b \<Longrightarrow>
     rank_inv b t' \<and> num_nodes t' = num_nodes t + 1 \<and>
     inorder t' = take (nat (p - b)) (inorder t) @ x # drop (nat (p - b)) (inorder t)"
proof (induction t arbitrary: p b t')
  case Null
  then show ?case by auto
next
  case (Node r v m d l rt)
  from Node.prems have r: "r = int (num_nodes l) + b" and rl: "rank_inv b l" and rrt: "rank_inv 1 rt"
    by auto
  show ?case
  proof (cases "p \<le> r")
    case True
    with Node.prems(1) obtain l1 where ins: "insert_node l p x = Some l1"
      and rb: "rebalance (r + 1) v m l1 rt p x = Some t'"
      by (auto split: option.splits)
    from Node.IH(1)[OF ins rl] Node.prems(3) True r
    have l1: "rank_inv b l1" "num_nodes l1 = num_nodes l + 1"
      "inorder l1 = take (nat (p - b)) (inorder l) @ x # drop (nat (p - b)) (inorder l)"
      by auto
    have k: "nat (p - b) \<le> length (inorder l)" using True r by (simp add: length_inorder)
    from rebalance_rank[OF rb _ l1(1) rrt] r l1(2) have "rank_inv b t'" by simp
    moreover from rebalance_num[OF rb] l1(2) have "num_nodes t' = num_nodes (Node r v m d l rt) + 1"
      by simp
    moreover from rebalance_inorder[OF rb] l1(3) k
    have "inorder t' = take (nat (p - b)) (inorder (Node r v m d l rt)) @ x #
             drop (nat (p - b)) (inorder (Node r v m d l rt))" by simp
    ultimately show ?thesis by blast
  next
    case False
    with Node.prems(1) obtain rt1 where ins: "insert_node rt (p - r) x = Some rt1"
      and rb: "rebalance r v m l rt1 p x = Some t'"
      by (auto split: option.splits)
    from Node.IH(2)[OF ins rrt] Node.prems(4) False r
    have rt1: "rank_inv 1 rt1" "num_nodes rt1 = num_nodes rt + 1"
      "inorder rt1 = take (nat (p - r - 1)) (inorder rt) @ x # drop (nat (p - r - 1)) (inorder rt)"
      by auto
    have k: "nat (p - b) = length (inorder l) + 1 + nat (p - r - 1)"
      using False r Node.prems(3) by (simp add: length_inorder)
    from rebalance_rank[OF rb r rl rt1(1)] have "rank_inv b t'" .
    moreover from rebalance_num[OF rb] rt1(2) have "num_nodes t' = num_nodes (Node r v m d l rt) + 1"
      by simp
    moreover from rebalance_inorder[OF rb] rt1(3)
    have "inorder t' = take (nat (p - b)) (inorder (Node r v m d l rt)) @ x #
             drop (nat (p - b)) (inorder (Node r v m d l rt))" by (simp add: k)
    ultimately show ?thesis by blast
  qed
qed

lemma insert_node_min:
  "insert_node t p x = Some t' \<Longrightarrow> min_inv t \<Longrightarrow> min_inv t' \<and> get_min t' = min (get_min t) x"
proof (induction t arbitrary: p t')
  case Null
  then show ?case by auto
next
  case (Node r v m d l rt)
  from Node.prems have m: "m = min v (min (get_min l) (get_min rt))"
    and ml: "min_inv l" and mrt: "min_inv rt" by auto
  show ?case
  proof (cases "p \<le> r")
    case True
    with Node.prems(1) obtain l1 where ins: "insert_node l p x = Some l1"
      and rb: "rebalance (r + 1) v m l1 rt p x = Some t'"
      by (auto split: option.splits)
    from Node.IH(1)[OF ins ml] have l1: "min_inv l1" "get_min l1 = min (get_min l) x" by auto
    have "min m x = min v (min (get_min l1) (get_min rt))"
      unfolding m l1(2) by (simp add: min.assoc min.commute min.left_commute)
    from rebalance_min[OF rb this l1(1) mrt] show ?thesis by simp
  next
    case False
    with Node.prems(1) obtain rt1 where ins: "insert_node rt (p - r) x = Some rt1"
      and rb: "rebalance r v m l rt1 p x = Some t'"
      by (auto split: option.splits)
    from Node.IH(2)[OF ins mrt] have rt1: "min_inv rt1" "get_min rt1 = min (get_min rt) x" by auto
    have "min m x = min v (min (get_min l) (get_min rt1))"
      unfolding m rt1(2) by (simp add: min.assoc min.commute min.left_commute)
    from rebalance_min[OF rb this ml rt1(1)] show ?thesis by simp
  qed
qed

subsection \<open>Update and search\<close>

lemma update_num: "num_nodes (update t p x) = num_nodes t"
  by (induction t arbitrary: p) (auto simp: Let_def)

lemma update_depth: "get_depth (update t p x) = get_depth t"
  by (cases t) (auto simp: Let_def)

lemma update_skeleton: "map_node (\<lambda>_. ()) (update t p x) = map_node (\<lambda>_. ()) t"
  by (induction t arbitrary: p) (auto simp: Let_def)

lemma update_rank: "rank_inv b (update t p x) = rank_inv b t"
  by (induction t arbitrary: p b) (auto simp: Let_def update_num)

lemma update_avl: "avl (update t p x) = avl t"
  by (induction t arbitrary: p) (auto simp: Let_def update_depth)

lemma update_min_inv: "min_inv t \<Longrightarrow> min_inv (update t p x)"
  by (induction t arbitrary: p) (auto simp: Let_def update_min_get_min)

lemma update_inorder:
  "rank_inv b t \<Longrightarrow> b \<le> p \<Longrightarrow> p < int (num_nodes t) + b \<Longrightarrow>
     inorder (update t p x) = (inorder t)[nat (p - b) := x]"
proof (induction t arbitrary: p b)
  case Null
  then show ?case by simp
next
  case (Node r v m d l rt)
  from Node.prems have r: "r = int (num_nodes l) + b" and rl: "rank_inv b l" and rrt: "rank_inv 1 rt"
    by auto
  consider (lt) "p < r" | (gt) "p > r" | (eq) "p = r" by linarith
  then show ?case
  proof cases
    case lt
    then have "nat (p - b) < length (inorder l)" using r Node.prems(2) by (simp add: length_inorder)
    with Node.IH(1)[OF rl Node.prems(2)] lt r show ?thesis
      by (simp add: Let_def list_update_append)
  next
    case gt
    then have k: "nat (p - b) = length (inorder l) + 1 + nat (p - r - 1)"
      using r Node.prems(2) by (simp add: length_inorder)
    from Node.IH(2)[OF rrt, of "p - r"] gt Node.prems(3) r
    have "inorder (update rt (p - r) x) = (inorder rt)[nat (p - r - 1) := x]" by simp
    with gt show ?thesis by (simp add: Let_def list_update_append k)
  next
    case eq
    then have "nat (p - b) = length (inorder l)" using r by (simp add: length_inorder)
    with eq show ?thesis by (simp add: list_update_append)
  qed
qed

lemma update_noop:
  "rank_inv b t \<Longrightarrow> min_inv t \<Longrightarrow> int (num_nodes t) + b \<le> p \<Longrightarrow> 0 \<le> b \<Longrightarrow> update t p x = t"
proof (induction t arbitrary: p b)
  case Null
  then show ?case by simp
next
  case (Node r v m d l rt)
  from Node.prems have r: "r = int (num_nodes l) + b" and rrt: "rank_inv 1 rt"
    and m: "m = min v (min (get_min l) (get_min rt))" and mrt: "min_inv rt"
    by auto
  have gt: "p > r" using r Node.prems(3) by simp
  have "update rt (p - r) x = rt"
    using Node.IH(2)[OF rrt mrt, of "p - r"] r Node.prems(3) by simp
  with gt m show ?case by (simp add: Let_def update_min_get_min)
qed

lemma search_inorder:
  "rank_inv b t \<Longrightarrow> b \<le> p \<Longrightarrow> p < int (num_nodes t) + b \<Longrightarrow>
     search t p \<noteq> Null \<and> value_n (search t p) = inorder t ! nat (p - b)"
proof (induction t arbitrary: p b)
  case Null
  then show ?case by simp
next
  case (Node r v m d l rt)
  from Node.prems have r: "r = int (num_nodes l) + b" and rl: "rank_inv b l" and rrt: "rank_inv 1 rt"
    by auto
  consider (lt) "p < r" | (gt) "p > r" | (eq) "p = r" by linarith
  then show ?case
  proof cases
    case lt
    then have "nat (p - b) < length (inorder l)" using r Node.prems(2) by (simp add: length_inorder)
    with Node.IH(1)[OF rl Node.prems(2)] lt r show ?thesis
      by (simp add: nth_append)
  next
    case gt
    then have k: "nat (p - b) = length (inorder l) + 1 + nat (p - r - 1)"
      using r Node.prems(2) by (simp add: length_inorder)
    from Node.IH(2)[OF rrt, of "p - r"] gt Node.prems(3) r
    have "search rt (p - r) \<noteq> Null \<and> value_n (search rt (p - r)) = inorder rt ! nat (p - r - 1)"
      by simp
    with gt show ?thesis by (simp add: k nth_append)
  next
    case eq
    then have "nat (p - b) = length (inorder l)" using r by (simp add: length_inorder)
    with eq show ?thesis by (simp add: nth_append)
  qed
qed

subsection \<open>Range minimum\<close>

lemma min_list_top_append: "min_list_top (xs @ ys) = min (min_list_top xs) (min_list_top ys)"
  by (induction xs) (auto simp: min.assoc)

lemma min_list_top_Min: "ys \<noteq> [] \<Longrightarrow> min_list_top ys = Min (set ys)"
proof (induction ys)
  case Nil
  then show ?case by simp
next
  case (Cons y ys)
  then show ?case by (cases ys) (auto simp: min.commute)
qed

lemma get_min_inorder: "min_inv t \<Longrightarrow> get_min t = min_list_top (inorder t)"
  by (induction t) (auto simp: min_list_top_append min.assoc min.left_commute)

lemma slice_left: "j \<le> length xs \<Longrightarrow> slice (xs @ ys) i j = slice xs i j"
  by (simp add: slice_def)

lemma slice_right:
  "length xs < i \<Longrightarrow> slice (xs @ y # ys) i j = slice ys (i - length xs - 1) (j - length xs - 1)"
proof -
  assume "length xs < i"
  then obtain k where k: "i = Suc (length xs + k)" using less_iff_Suc_add by blast
  show ?thesis unfolding k by (simp add: slice_def)
qed

lemma slice_mid:
  "i \<le> length xs \<Longrightarrow> length xs < j \<Longrightarrow>
     slice (xs @ y # ys) i j = drop i xs @ y # take (j - length xs - 1) ys"
proof -
  assume i: "i \<le> length xs" and "length xs < j"
  then obtain k where k: "j = Suc (length xs + k)" using less_iff_Suc_add by blast
  have "Suc (length xs + k) - i = (length xs - i) + Suc k" using i by simp
  then show ?thesis unfolding k using i by (simp add: slice_def)
qed

lemma slice_empty: "j \<le> i \<Longrightarrow> slice xs i j = []"
  by (simp add: slice_def)

lemma slice_to_end: "length xs \<le> j \<Longrightarrow> slice xs i j = drop i xs"
  by (simp add: slice_def)

lemma slice_0: "slice xs 0 j = take j xs"
  by (simp add: slice_def)

lemma min_range_slice:
  "rank_inv b t \<Longrightarrow> min_inv t \<Longrightarrow> 0 \<le> b \<Longrightarrow> 0 \<le> lo \<Longrightarrow>
   (flag \<longrightarrow> int (num_nodes t) + b \<le> hi) \<Longrightarrow>
   min_range t lo hi flag = min_list_top (slice (inorder t) (nat (lo - b)) (nat (hi - b)))"
proof (induction t arbitrary: b lo hi flag)
  case Null
  then show ?case by (simp add: slice_def)
next
  case (Node r v m d l rt)
  from Node.prems have r: "r = int (num_nodes l) + b" and rl: "rank_inv b l" and rrt: "rank_inv 1 rt"
    and ml: "min_inv l" and mrt: "min_inv rt" by auto
  note b = \<open>0 \<le> b\<close> and lo = \<open>0 \<le> lo\<close>
  let ?il = "inorder l" and ?irt = "inorder rt"
  have len: "length ?il = num_nodes l" "length ?irt = num_nodes rt" by (simp_all add: length_inorder)
  consider (emp) "lo = hi" | (lft) "lo \<noteq> hi" "hi \<le> r" | (rgt) "lo \<noteq> hi" "r < hi" "r < lo"
    | (mid) "lo \<noteq> hi" "r < hi" "lo \<le> r" by linarith
  then show ?case
  proof cases
    case emp
    then show ?thesis by (simp add: slice_empty)
  next
    case lft
    then have "nat (hi - b) \<le> length ?il" using r len by simp
    then have "slice (inorder (Node r v m d l rt)) (nat (lo - b)) (nat (hi - b))
        = slice ?il (nat (lo - b)) (nat (hi - b))" by (simp add: slice_left)
    moreover have "min_range l lo hi False = min_list_top (slice ?il (nat (lo - b)) (nat (hi - b)))"
      by (rule Node.IH(1)[OF rl ml b lo]) simp
    ultimately show ?thesis using lft by simp
  next
    case rgt
    then have "length ?il < nat (lo - b)" using r len by simp
    then have "slice (inorder (Node r v m d l rt)) (nat (lo - b)) (nat (hi - b))
        = slice ?irt (nat (lo - b) - length ?il - 1) (nat (hi - b) - length ?il - 1)"
      by (simp add: slice_right)
    moreover have "nat (lo - b) - length ?il - 1 = nat (lo - r - 1)"
      "nat (hi - b) - length ?il - 1 = nat (hi - r - 1)" using r len by simp_all
    moreover have "min_range rt (lo - r) (hi - r) False
        = min_list_top (slice ?irt (nat (lo - r - 1)) (nat (hi - r - 1)))"
      by (rule Node.IH(2)[OF rrt mrt]) (use rgt in simp_all)
    ultimately show ?thesis using rgt by simp
  next
    case mid
    then have i: "nat (lo - b) \<le> length ?il" "length ?il < nat (hi - b)" using r len b by simp_all
    have sl: "slice (inorder (Node r v m d l rt)) (nat (lo - b)) (nat (hi - b))
        = drop (nat (lo - b)) ?il @ v # take (nat (hi - r - 1)) ?irt"
    proof -
      have "nat (hi - b) - length ?il - 1 = nat (hi - r - 1)" using r len by simp
      with slice_mid[OF i, of v ?irt] show ?thesis by simp
    qed
    have R: "min_range rt 0 (hi - r) False = min_list_top (take (nat (hi - r - 1)) ?irt)"
      using Node.IH(2)[OF rrt mrt, where lo=0 and hi="hi - r" and flag=False] by (simp add: slice_0)
    have L: "(if lo = 0 then get_min l else min_range l lo r True)
        = min_list_top (drop (nat (lo - b)) ?il)"
    proof (cases "lo = 0")
      case True
      then show ?thesis using b by (simp add: get_min_inorder[OF ml])
    next
      case False
      have "min_range l lo r True = min_list_top (slice ?il (nat (lo - b)) (nat (r - b)))"
        by (rule Node.IH(1)[OF rl ml b lo]) (use r in simp)
      then show ?thesis using False r len by (simp add: slice_to_end)
    qed
    have F: "flag \<Longrightarrow> take (nat (hi - r - 1)) ?irt = ?irt"
      using Node.prems(5) r len by simp
    have "min_range (Node r v m d l rt) lo hi flag =
       min (min (if flag then min v (get_min rt) else v)
                (if lo = 0 then get_min l else min_range l lo r True))
           (min_range rt 0 (hi - r) False)"
      using mid by (simp add: Let_def)
    also have "\<dots> = min (min (if flag then min v (min_list_top ?irt) else v)
                (min_list_top (drop (nat (lo - b)) ?il)))
           (min_list_top (take (nat (hi - r - 1)) ?irt))"
      by (simp only: L R get_min_inorder[OF mrt])
    also have "\<dots> = min_list_top (drop (nat (lo - b)) ?il @ v # take (nat (hi - r - 1)) ?irt)"
      using F by (cases flag) (simp_all add: min_list_top_append min.assoc min.commute min.left_commute)
    finally show ?thesis by (simp only: sl)
  qed
qed

subsection \<open>The height field\<close>

text \<open>
  A balanced tree of stored depth \<open>d\<close> has at least \<open>2 ^ (d div 2) - 1\<close> nodes. A tree
  whose node count fits a key of at most 64 bits therefore has a depth below 130: the
  \<^verbatim>\<open>uint8_t\<close> that \<^verbatim>\<open>d_t\<close> resolves to for such keys never wraps.
\<close>

lemma pow_half_step:
  fixes a b k :: nat
  assumes "k \<le> a" "k \<le> b"
  shows "(2::nat) ^ ((k + 2) div 2) \<le> 2 ^ (a div 2) + 2 ^ (b div 2)"
proof -
  have m: "(2::nat) ^ (i div 2) \<le> 2 ^ (j div 2)" if "i \<le> j" for i j :: nat
    using that by (simp add: div_le_mono)
  have "(2::nat) ^ ((k + 2) div 2) = 2 ^ (k div 2) + 2 ^ (k div 2)" by simp
  also have "\<dots> \<le> 2 ^ (a div 2) + 2 ^ (b div 2)"
    by (rule add_mono[OF m[OF assms(1)] m[OF assms(2)]])
  finally show ?thesis .
qed

lemma avl_depth_bound: "avl t \<Longrightarrow> 2 ^ (get_depth t div 2) \<le> num_nodes t + 1"
proof (induction t)
  case Null
  then show ?case by simp
next
  case (Node r v m d l rt)
  from Node.prems have d: "d = max (get_depth l) (get_depth rt) + 1"
    and bal: "get_depth l \<le> get_depth rt + 1" "get_depth rt \<le> get_depth l + 1"
    and al: "avl l" and art: "avl rt" by auto
  note il = Node.IH(1)[OF al] and irt = Node.IH(2)[OF art]
  have pow: "(2::nat) ^ (d div 2) \<le> 2 ^ (get_depth l div 2) + 2 ^ (get_depth rt div 2)"
  proof (cases "d = 1")
    case True
    then show ?thesis by (simp add: add_increasing)
  next
    case False
    with d have k: "d - 2 \<le> get_depth l" "d - 2 \<le> get_depth rt" "d = (d - 2) + 2"
      using bal by linarith+
    from pow_half_step[OF k(1,2)] k(3) show ?thesis by metis
  qed
  with il irt have "2 ^ (d div 2) \<le> (num_nodes l + 1) + (num_nodes rt + 1)"
    by linarith
  then show ?case by simp
qed

subsection \<open>The invariant along a run\<close>

lemma to_vector_inorder: "to_vector t = inorder (root t)"
  by (simp add: to_vector_def to_vector_node_inorder)

lemma avl_height: "avl t \<Longrightarrow> get_depth t = height t"
  by (induction t) auto

lemma avl_balanced: "avl t \<Longrightarrow> balanced t \<and> depth_inv t"
  by (induction t) (auto simp: avl_height)

lemma rank_inv_one_based: "rank_inv 1 t \<Longrightarrow> rank_one_based t"
  by (induction t) auto

lemma rank_inv_spine: "rank_inv 0 t \<Longrightarrow> spine_ranks t"
  by (induction t) (auto intro: rank_inv_one_based)

lemma insert_node_Null_new_leaf: "insert_node Null rnk x = Some (new_leaf Null rnk x)"
  by simp

lemma new_leaf_rank:
  "rank_inv b t \<Longrightarrow> b \<le> p \<Longrightarrow> p \<le> int (num_nodes t) + b \<Longrightarrow>
     new_leaf t p x = Node (if left_only t p then b else 1) x x 1 Null Null"
proof (induction t arbitrary: b p)
  case Null
  then show ?case by simp
next
  case (Node r v m d l rt)
  from Node.prems have r: "r = int (num_nodes l) + b" and rl: "rank_inv b l" and rrt: "rank_inv 1 rt"
    by auto
  show ?case
  proof (cases "p \<le> r")
    case True
    with Node.IH(1)[OF rl Node.prems(2)] r show ?thesis by simp
  next
    case False
    with Node.IH(2)[OF rrt, of "p - r"] Node.prems(3) r show ?thesis by simp
  qed
qed

lemma left_only_iff:
  "rank_inv 0 t \<Longrightarrow> 0 \<le> p \<Longrightarrow> p \<le> int (num_nodes t) \<Longrightarrow> left_only t p \<longleftrightarrow> p = 0"
  by (induction t) auto

lemma rmq_inv_new: "rmq_inv (avl_rmq_new 0)"
  by (simp add: rmq_inv_def avl_rmq_new_def)

lemma insert_rmq_ok:
  assumes inv: "rmq_inv t" and p: "0 \<le> p" "p \<le> n_nodes t"
  shows "\<exists>t'. insert_rmq t p x = Some t' \<and> rmq_inv t' \<and> n_nodes t' = n_nodes t + 1 \<and>
           inorder (root t') = take (nat p) (inorder (root t)) @ x # drop (nat p) (inorder (root t))"
proof -
  from inv have ri: "rank_inv 0 (root t)" and mi: "min_inv (root t)" and av: "avl (root t)"
    and n: "n_nodes t = int (num_nodes (root t))" by (simp_all add: rmq_inv_def)
  from insert_node_avl[OF av, of p x] obtain u where
    ins: "insert_node (root t) p x = Some u" and au: "avl u" by blast
  from insert_node_rank[OF ins ri] p n have
    ru: "rank_inv 0 u" and nu: "num_nodes u = num_nodes (root t) + 1"
    and iu: "inorder u = take (nat p) (inorder (root t)) @ x # drop (nat p) (inorder (root t))"
    by simp_all
  from insert_node_min[OF ins mi] have mu: "min_inv u" by simp
  show ?thesis using ins au ru nu iu mu n by (simp add: insert_rmq_def rmq_inv_def)
qed

lemma update_rmq_inv: "rmq_inv t \<Longrightarrow> rmq_inv (update_rmq t p x)"
  by (simp add: rmq_inv_def update_rmq_def update_rank update_avl update_min_inv update_num)

lemma run_inv: "run t ops = Some t' \<Longrightarrow> rmq_inv t \<Longrightarrow> rmq_inv t'"
proof (induction t ops rule: run.induct)
  case (1 t)
  then show ?case by simp
next
  case (2 t p x ops)
  from "2.prems"(1) obtain u where c: "0 \<le> p" "p \<le> n_nodes t"
    and ins: "insert_rmq t p x = Some u" and r: "run u ops = Some t'"
    by (auto split: if_splits option.splits)
  from insert_rmq_ok[OF "2.prems"(2) c, of x] ins have "rmq_inv u" by auto
  from "2.IH"[OF _ ins r this] c show ?case by simp
next
  case (3 t p x ops)
  from "3.prems"(1) have c: "0 \<le> p \<and> p < n_nodes t"
    and r: "run (update_rmq t p x) ops = Some t'"
    by (auto split: if_splits)
  from "3.IH"[OF c r update_rmq_inv[OF "3.prems"(2)]] show ?case .
qed

lemma reachable_inv: "run (avl_rmq_new 0) ops = Some t \<Longrightarrow> rmq_inv t"
  by (rule run_inv[OF _ rmq_inv_new])

lemma example_run: "run (avl_rmq_new 0) example_ops = Some example_tree"
  by (simp add: example_ops_def example_tree_def avl_rmq_new_def insert_rmq_def update_rmq_def
      rebalance_def update_min_def Let_def)

lemma range_min_slice:
  assumes inv: "rmq_inv t" and lo: "0 \<le> lo"
  shows "range_min t lo hi = min_list_top (slice (inorder (root t)) (nat lo) (nat hi))"
proof -
  from inv have ri: "rank_inv 0 (root t)" and mi: "min_inv (root t)"
    and n: "n_nodes t = int (num_nodes (root t))" by (simp_all add: rmq_inv_def)
  show ?thesis
  proof (cases "lo = 0 \<and> hi > n_nodes t")
    case True
    then have "num_nodes (root t) \<le> nat hi" using n by linarith
    with True have "slice (inorder (root t)) (nat lo) (nat hi) = inorder (root t)"
      by (simp add: slice_def length_inorder)
    with True show ?thesis by (simp add: range_min_def get_min_inorder[OF mi])
  next
    case False
    have "min_range (root t) lo hi (hi > n_nodes t)
       = min_list_top (slice (inorder (root t)) (nat (lo - 0)) (nat (hi - 0)))"
      by (rule min_range_slice[OF ri mi _ lo]) (use n in simp_all)
    moreover from False have "range_min t lo hi = min_range (root t) lo hi (hi > n_nodes t)"
      by (auto simp: range_min_def)
    ultimately show ?thesis by simp
  qed
qed


text \<open>
  Every stored rank of a tree with the rank invariant is non-negative, and an in-contract
  insert extends every run: it never dereferences \<^verbatim>\<open>nullptr\<close>.
\<close>

lemma rank_inv_nonneg: "rank_inv b t \<Longrightarrow> 0 \<le> b \<Longrightarrow> t \<noteq> Null \<Longrightarrow> b \<le> rank t"
  by (cases t) auto

lemma run_append:
  "run t (ops @ ops') = (case run t ops of None \<Rightarrow> None | Some t' \<Rightarrow> run t' ops')"
  by (induction t ops rule: run.induct) (auto split: option.splits)

lemma run_insert_returns:
  fixes t :: "'s::{linorder,order_top} avl_rmq"
  assumes "run (avl_rmq_new 0) ops = Some t" and "0 \<le> p" and "p \<le> n_nodes t"
  shows "\<exists>t'. run (avl_rmq_new 0) (ops @ [Insert p x]) = Some t'"
  using insert_rmq_ok[OF reachable_inv[OF assms(1)] assms(2,3), of x] assms
  by (auto simp: run_append)

subsection \<open>The driver's run\<close>

text \<open>
  The model returns what the comments of the driver expect: 1 and 2 for the first two
  queries, then 2, 3 and 2 after \<^verbatim>\<open>insert(0,12)\<close> and \<^verbatim>\<open>update(2,12)\<close>.
\<close>

lemma driver_run: "run (avl_rmq_new 0) driver_ops = Some driver_tree"
  by (simp add: driver_ops_def driver_tree_def avl_rmq_new_def insert_rmq_def
      rebalance_def update_min_def Let_def)

lemma driver_queries:
  "to_vector driver_tree = [2, 1, 1, 3, 2, 3, 4, 5, 6, 7, 8, 9]"
  "range_min driver_tree 1 3 = 1"
  "range_min driver_tree 3 7 = 2"
  by (simp_all add: driver_tree_def to_vector_def range_min_def)

lemma driver_after_update:
  "\<exists>t. run driver_tree [Insert 0 12, Update 2 12] = Some t \<and>
       to_vector t = [12, 2, 12, 1, 3, 2, 3, 4, 5, 6, 7, 8, 9] \<and>
       range_min t 1 3 = 2 \<and> range_min t 6 12 = 3 \<and> access t 1 = Some 2"
  by (simp add: driver_tree_def insert_rmq_def update_rmq_def rebalance_def update_min_def
      Let_def to_vector_def range_min_def access_def)

subsection \<open>The queries when the counter starts at 0\<close>

text \<open>
  On runs whose counter starts at 0 the counter is the number of nodes, and then
  \<^verbatim>\<open>operator()\<close>, \<^verbatim>\<open>operator[]\<close> after an update, and the clamping of the right bound
  are as the specification says. The constructor does not set the counter: what the
  code does on the object it really builds is evaluated under C1, C7 and C10.
\<close>

lemma range_min_counter_0:
  assumes "run (avl_rmq_new 0) ops = Some t" and "0 \<le> lo" and "lo \<le> hi" and "hi \<le> n_nodes t"
  shows "range_min t lo hi =
           (if lo = hi then top
            else Min (set (take (nat (hi - lo)) (drop (nat lo) (to_vector t)))))"
proof -
  from reachable_inv[OF assms(1)] have inv: "rmq_inv t" .
  then have n: "n_nodes t = int (length (inorder (root t)))"
    by (simp add: rmq_inv_def length_inorder)
  have eq: "range_min t lo hi = min_list_top (slice (inorder (root t)) (nat lo) (nat hi))"
    by (rule range_min_slice[OF inv assms(2)])
  show ?thesis
  proof (cases "lo = hi")
    case True
    with eq show ?thesis by (simp add: slice_def)
  next
    case False
    have d: "nat hi - nat lo = nat (hi - lo)" using assms(2,3) by simp
    have "take (nat (hi - lo)) (drop (nat lo) (inorder (root t))) \<noteq> []"
      using False assms(2,3,4) n by simp
    then show ?thesis using False eq
      by (simp add: slice_def d to_vector_inorder min_list_top_Min)
  qed
qed

lemma update_counter_0:
  fixes t :: "'s::{linorder,order_top,zero} avl_rmq"
  assumes "run (avl_rmq_new 0) ops = Some t" and "0 \<le> p" and "p < n_nodes t"
  shows "to_vector (update_rmq t p v) = (to_vector t)[nat p := v] \<and>
         access (update_rmq t p v) p = Some v \<and>
         map_node (\<lambda>_. ()) (root (update_rmq t p v)) = map_node (\<lambda>_. ()) (root t) \<and>
         n_nodes (update_rmq t p v) = n_nodes t"
proof -
  from reachable_inv[OF assms(1)] have ri: "rank_inv 0 (root t)"
    and n: "n_nodes t = int (num_nodes (root t))" by (simp_all add: rmq_inv_def)
  let ?u = "update (root t) p v"
  have io: "inorder ?u = (inorder (root t))[nat p := v]"
    using update_inorder[OF ri assms(2)] assms(3) n by simp
  have ru: "rank_inv 0 ?u" using ri by (simp add: update_rank)
  from search_inorder[OF ru assms(2)] assms(3) n
  have s: "search ?u p \<noteq> Null" "value_n (search ?u p) = inorder ?u ! nat p"
    by (simp_all add: update_num)
  have len: "nat p < length (inorder (root t))" using assms(2,3) n by (simp add: length_inorder)
  from assms(2,3) n have "?u \<noteq> Null" by (cases "root t") (auto simp: Let_def)
  with s io len assms(3) have "access (update_rmq t p v) p = Some v"
    by (cases "search ?u p") (simp_all add: access_def update_rmq_def)
  then show ?thesis using io
    by (simp add: to_vector_inorder update_rmq_def update_skeleton)
qed

lemma range_min_clamped_counter_0:
  fixes t :: "'s::{linorder,order_top} avl_rmq"
  assumes "run (avl_rmq_new 0) ops = Some t" and "0 \<le> lo" and "n_nodes t < hi"
  shows "range_min t lo hi = range_min t lo (n_nodes t) \<and>
         (lo = 0 \<longrightarrow> range_min t lo hi = get_min (root t))"
proof -
  from reachable_inv[OF assms(1)] have inv: "rmq_inv t" .
  then have n: "n_nodes t = int (length (inorder (root t)))"
    by (simp add: rmq_inv_def length_inorder)
  have "length (inorder (root t)) \<le> nat hi" using n assms(3) by linarith
  then have "slice (inorder (root t)) (nat lo) (nat hi)
      = slice (inorder (root t)) (nat lo) (nat (n_nodes t))"
    using n by (simp add: slice_to_end)
  then have "range_min t lo hi = range_min t lo (n_nodes t)"
    by (simp add: range_min_slice[OF inv assms(2)])
  moreover have "lo = 0 \<longrightarrow> range_min t lo hi = get_min (root t)"
    using assms(3) by (simp add: range_min_def)
  ultimately show ?thesis by blast
qed

subsection \<open>A run with the counter left unset\<close>

lemma unset_calls:
  "calls (avl_rmq_new (- 2)) [Insert 0 5, Insert 1 9, Insert 2 1] = Some unset_tree"
  by (simp add: unset_tree_def avl_rmq_new_def insert_rmq_def rebalance_def update_min_def Let_def)


section \<open>The claims\<close>

text \<open>
  C1: for \<open>0 \<le> lo \<le> hi\<close> up to the number of elements, \<^verbatim>\<open>operator()\<close> returns the
  minimum of the elements at positions \<open>lo, \<dots>, hi - 1\<close>. The code at a failing input:
  the constructor finds \<open>- 2\<close> in \<^verbatim>\<open>n_nodes\<close>, three inserts build \<open>[5, 9, 1]\<close> and
  leave the counter at 1; then \<open>2 > n_nodes\<close> sets \<^verbatim>\<open>include_right\<close> and
  \<^verbatim>\<open>operator()(1, 2)\<close> returns 1, where the minimum of the slice \<open>[9]\<close> is 9.
\<close>

theorem range_min_unset_counter:
  "calls (avl_rmq_new (- 2)) [Insert 0 5, Insert 1 9, Insert 2 1] = Some unset_tree \<and>
   to_vector unset_tree = [5, 9, 1] \<and>
   range_min unset_tree 1 2 = 1 \<and>
   Min (set (take (nat (2 - 1)) (drop (nat 1) (to_vector unset_tree)))) = 9"
  using unset_calls by (simp add: unset_tree_def to_vector_def range_min_def)

text \<open>
  C2: in a reachable tree, \<^verbatim>\<open>insert(p, v)\<close> with \<open>0 \<le> p \<le> n_nodes\<close> returns, and the
  new sequence is the old one with \<open>v\<close> at index \<open>p\<close> and every former element of index
  \<open>i \<ge> p\<close> at index \<open>i + 1\<close>.
\<close>

theorem insert_shifts_right:
  fixes t :: "'s::{linorder,order_top} avl_rmq"
  assumes "run (avl_rmq_new 0) ops = Some t" and "0 \<le> p" and "p \<le> n_nodes t"
  shows "\<exists>t'. insert_rmq t p v = Some t' \<and> n_nodes t' = n_nodes t + 1 \<and>
           to_vector t' = take (nat p) (to_vector t) @ v # drop (nat p) (to_vector t)"
  using insert_rmq_ok[OF reachable_inv[OF assms(1)] assms(2,3), of v]
  by (auto simp: to_vector_inorder)

theorem insert_shifts_right_witness:
  "run (avl_rmq_new 0) example_ops = Some example_tree \<and> (0::int) \<le> 1 \<and>
   1 \<le> n_nodes example_tree \<and>
   (\<exists>t'. insert_rmq example_tree 1 7 = Some t' \<and> n_nodes t' = 5 \<and>
          to_vector t' = [12, 7, 2, 12, 1])"
proof -
  have n: "1 \<le> n_nodes example_tree" by (simp add: example_tree_def)
  have v: "to_vector example_tree = [12, 2, 12, 1]" "n_nodes example_tree = 4"
    by (simp_all add: to_vector_def example_tree_def)
  from insert_shifts_right[OF example_run _ n, of 7] show ?thesis
    using example_run n by (simp add: v)
qed

text \<open>
  C3 as stated: in every reachable tree every node has \<open>rank = 1 + size left\<close>, and the
  leaf that insert creates at an absent child has rank 1. The first insert into the
  empty tree refutes both halves: the leaf it creates is the root, with rank 0.
\<close>

theorem rank_one_based_counterexample:
  "run (avl_rmq_new 0) [Insert 0 (5::32 word)] = Some \<lparr>root = Node 0 5 5 1 Null Null, n_nodes = 1\<rparr>
   \<and> insert_node Null 0 (5::32 word) = Some (Node 0 5 5 1 Null Null)
   \<and> \<not> rank_one_based (Node 0 (5::32 word) 5 1 Null Null)"
  by (simp add: avl_rmq_new_def insert_rmq_def)

text \<open>
  C3 as amended: in every reachable tree every node that is not on the left spine has
  \<open>rank = 1 + size left\<close> and every node on the left spine has \<open>rank = size left\<close>;
  the leaf that an in-contract insert creates at an absent child has value and minimum
  \<open>v\<close>, height 1 and rank 1, except when it is created on the left spine, which is
  the insert at position 0: there its rank is 0.
\<close>

theorem rank_one_based_except_spine:
  fixes t :: "'s::{linorder,order_top} avl_rmq"
  assumes "run (avl_rmq_new 0) ops = Some t"
  shows "spine_ranks (root t) \<and>
         (\<forall>p v. 0 \<le> p \<and> p \<le> n_nodes t \<longrightarrow>
            (left_only (root t) p \<longleftrightarrow> p = 0) \<and>
            new_leaf (root t) p v =
              Node (if left_only (root t) p then 0 else 1) v v 1 Null Null)"
proof -
  from reachable_inv[OF assms] have ri: "rank_inv 0 (root t)"
    and n: "n_nodes t = int (num_nodes (root t))" by (simp_all add: rmq_inv_def)
  have "(left_only (root t) p \<longleftrightarrow> p = 0) \<and>
        new_leaf (root t) p v = Node (if left_only (root t) p then 0 else 1) v v 1 Null Null"
    if p: "0 \<le> p" "p \<le> n_nodes t" for p v
  proof -
    have "left_only (root t) p \<longleftrightarrow> p = 0"
      by (rule left_only_iff[OF ri p(1)]) (use p(2) n in simp)
    moreover have "new_leaf (root t) p v =
        Node (if left_only (root t) p then 0 else 1) v v 1 Null Null"
      by (rule new_leaf_rank[OF ri p(1)]) (use p(2) n in simp)
    ultimately show ?thesis by blast
  qed
  with rank_inv_spine[OF ri] show ?thesis by blast
qed

theorem rank_one_based_except_spine_witness:
  "run (avl_rmq_new 0) example_ops = Some example_tree \<and>
   spine_ranks (root example_tree) \<and>
   (0::int) \<le> 3 \<and> 3 \<le> n_nodes example_tree \<and>
   \<not> left_only (root example_tree) 3 \<and>
   new_leaf (root example_tree) 3 (7::32 word) = Node 1 7 7 1 Null Null \<and>
   left_only (root example_tree) 0 \<and>
   new_leaf (root example_tree) 0 (7::32 word) = Node 0 7 7 1 Null Null"
proof -
  have n: "(0::int) \<le> 3 \<and> 3 \<le> n_nodes example_tree" "(0::int) \<le> 0 \<and> 0 \<le> n_nodes example_tree"
    by (simp_all add: example_tree_def)
  note th = rank_one_based_except_spine[OF example_run]
  from th have s: "spine_ranks (root example_tree)" by blast
  from th n(1) have a: "(left_only (root example_tree) 3 \<longleftrightarrow> (3::int) = 0) \<and>
      new_leaf (root example_tree) 3 (7::32 word)
        = Node (if left_only (root example_tree) 3 then 0 else 1) 7 7 1 Null Null" by blast
  from th n(2) have b: "(left_only (root example_tree) 0 \<longleftrightarrow> (0::int) = 0) \<and>
      new_leaf (root example_tree) 0 (7::32 word)
        = Node (if left_only (root example_tree) 0 then 0 else 1) 7 7 1 Null Null" by blast
  from a have a': "\<not> left_only (root example_tree) 3"
    "new_leaf (root example_tree) 3 (7::32 word) = Node 1 7 7 1 Null Null" by simp_all
  from b have b': "left_only (root example_tree) 0"
    "new_leaf (root example_tree) 0 (7::32 word) = Node 0 7 7 1 Null Null" by simp_all
  show ?thesis using example_run s n a' b' by blast
qed

text \<open>
  C4: in every reachable tree every node has \<open>rank = size left + b\<close>, where \<open>b\<close> is 0
  for the root and the nodes reached from it by left edges only, and 1 for every other
  node. With it the descent of \<^verbatim>\<open>search\<close> arrives at the node of the 0-based position it
  is asked for.
\<close>

theorem rank_offset_invariant:
  fixes t :: "'s::{linorder,order_top,zero} avl_rmq"
  assumes "run (avl_rmq_new 0) ops = Some t"
  shows "rank_inv 0 (root t) \<and>
         (\<forall>p. 0 \<le> p \<and> p < n_nodes t \<longrightarrow> access t p = Some (to_vector t ! nat p))"
proof -
  from reachable_inv[OF assms] have ri: "rank_inv 0 (root t)"
    and n: "n_nodes t = int (num_nodes (root t))" by (simp_all add: rmq_inv_def)
  have "access t p = Some (to_vector t ! nat p)" if p: "0 \<le> p" "p < n_nodes t" for p
  proof -
    from search_inorder[OF ri p(1)] p(2) n
    have s: "search (root t) p \<noteq> Null" "value_n (search (root t) p) = inorder (root t) ! nat p"
      by simp_all
    from p n have "root t \<noteq> Null" by (cases "root t") auto
    with s p show ?thesis
      by (cases "search (root t) p") (simp_all add: access_def to_vector_inorder)
  qed
  with ri show ?thesis by blast
qed

theorem rank_offset_invariant_witness:
  "run (avl_rmq_new 0) example_ops = Some example_tree \<and> rank_inv 0 (root example_tree) \<and>
   (0::int) \<le> 1 \<and> 1 < n_nodes example_tree \<and> access example_tree 1 = Some 2"
proof -
  have n: "1 < n_nodes example_tree" and v: "to_vector example_tree ! nat 1 = 2"
    by (simp_all add: example_tree_def to_vector_def)
  from rank_offset_invariant[OF example_run] have "rank_inv 0 (root example_tree)"
    and "access example_tree 1 = Some (to_vector example_tree ! nat 1)" using n by simp_all
  then show ?thesis using example_run n v by simp
qed

text \<open>
  C5: in every reachable tree the heights of the two children of every node differ by at
  most one, and the stored \<^verbatim>\<open>depth\<close> of every node is one more than the larger of its
  children's stored depths.
\<close>

theorem avl_balance_invariant:
  fixes t :: "'s::{linorder,order_top} avl_rmq"
  assumes "run (avl_rmq_new 0) ops = Some t"
  shows "balanced (root t) \<and> depth_inv (root t)"
proof -
  from reachable_inv[OF assms] have "avl (root t)" by (simp add: rmq_inv_def)
  then show ?thesis by (rule avl_balanced)
qed

theorem avl_balance_invariant_witness:
  "run (avl_rmq_new 0) example_ops = Some example_tree \<and>
   balanced (root example_tree) \<and> depth_inv (root example_tree)"
  using avl_balance_invariant[OF example_run] example_run by simp

text \<open>
  C6: in every reachable tree the cached \<^verbatim>\<open>min\<close> of every node is the minimum of its
  value and its children's cached minima, an absent child counting as the sentinel.
\<close>

theorem cached_min_invariant:
  fixes t :: "'s::{linorder,order_top} avl_rmq"
  assumes "run (avl_rmq_new 0) ops = Some t"
  shows "min_inv (root t)"
  using reachable_inv[OF assms] by (simp add: rmq_inv_def)

theorem cached_min_invariant_witness:
  "run (avl_rmq_new 0) example_ops = Some example_tree \<and> min_inv (root example_tree)"
  using cached_min_invariant[OF example_run] example_run by simp

text \<open>
  C7: \<^verbatim>\<open>update(p, v)\<close> at an in-range \<open>p\<close> puts \<open>v\<close> at position \<open>p\<close>, so that
  \<^verbatim>\<open>operator[]\<close> returns \<open>v\<close> there. The code at a failing input: on the tree of
  \<open>[5, 9, 1]\<close> whose counter the constructor left at \<open>- 2\<close>, \<^verbatim>\<open>update(1, 7)\<close> makes the
  sequence \<open>[5, 7, 1]\<close>, and \<^verbatim>\<open>operator[]\<close> at 1 returns 0: its guard reads the counter,
  which is 1.
\<close>

theorem update_access_unset_counter:
  "calls (avl_rmq_new (- 2)) [Insert 0 5, Insert 1 9, Insert 2 1] = Some unset_tree \<and>
   to_vector (update_rmq unset_tree 1 7) = [5, 7, 1] \<and>
   access (update_rmq unset_tree 1 7) 1 = Some 0"
  using unset_calls
  by (simp add: unset_tree_def to_vector_def update_rmq_def update_min_def access_def)



text \<open>
  C9: in a reachable tree, \<^verbatim>\<open>update(p, v)\<close> with \<open>p \<ge> n_nodes\<close> leaves the state as it
  was: every field of every node and the counter.
\<close>

theorem update_out_of_range:
  fixes t :: "'s::{linorder,order_top} avl_rmq"
  assumes "run (avl_rmq_new 0) ops = Some t" and "n_nodes t \<le> p"
  shows "update_rmq t p v = t"
proof -
  from reachable_inv[OF assms(1)] have ri: "rank_inv 0 (root t)" and mi: "min_inv (root t)"
    and n: "n_nodes t = int (num_nodes (root t))" by (simp_all add: rmq_inv_def)
  have "update (root t) p v = root t"
    by (rule update_noop[OF ri mi]) (use assms(2) n in simp_all)
  then show ?thesis by (simp add: update_rmq_def)
qed

theorem update_out_of_range_witness:
  "run (avl_rmq_new 0) example_ops = Some example_tree \<and> n_nodes example_tree \<le> 4 \<and>
   update_rmq example_tree 4 0 = example_tree"
proof -
  have n: "n_nodes example_tree \<le> 4" by (simp add: example_tree_def)
  from update_out_of_range[OF example_run n, of 0] show ?thesis using example_run n by simp
qed


end
